theory Spec2Isabelle
  imports Main "HOL-Library.Word"
begin

unbundle bit_operations_syntax

section \<open>The LSB codec of solus.py\<close>

text \<open>
  The image is the array returned by \<open>cv2.imread\<close>: H rows of W pixels, each pixel three
  unsigned 8-bit channels. \<open>iter_pixels\<close> yields the pixels row by row, so the image is
  modelled as the list of its pixels in that order (pixel \<open>(h, w)\<close> is element
  \<open>h * W + w\<close>), and the generator \<open>piter\<close> as the list of pixels it has not yet
  yielded. Python integers are \<open>int\<close>; loop counters that only count down from a
  non-negative start are \<open>nat\<close>. The interpreter is one in which \<open>types.NoneType\<close>
  exists (Python 2, or 3.10 and later), so that the type check at the head of \<open>decode\<close>
  can pass; \<open>print\<close> calls are left out.
\<close>

subsection \<open>Constants, exceptions, values\<close>

definition CHAN_SIZE :: int where "CHAN_SIZE = 8"
definition PROLOG_SIZE :: int where "PROLOG_SIZE = 2"
definition LEN_SIZE :: int where "LEN_SIZE = 4"
definition CHAN_CNT :: int where "CHAN_CNT = 3"

definition XOR_Y :: int where "XOR_Y = 56"
definition XOR_N :: int where "XOR_N = 0"

datatype error =
    TypeError | ValueError | AssertionError | StopIteration | ZeroDivisionError
  | BinasciiError | IOError
  | InvalidImage | TooMuchData | InvalidLSB | InvalidXOR | MissingXOR

type_synonym byte = "8 word"
type_synonym pixel = "byte \<times> byte \<times> byte"
type_synonym image = "pixel list"

text \<open>
  What a caller can pass where \<open>encode\<close> expects \<open>lsb_cnt\<close>, directly or as the
  \<open>xor_key\<close> of \<open>encode_string\<close> and \<open>encode_file\<close>: an integer, \<open>None\<close> or a bytes
  object.
\<close>

datatype pyval = PyNone | PyInt int | PyBytes "byte list"

text \<open>A blank image of \<open>h\<close> rows and \<open>w\<close> columns.\<close>

definition blank :: "nat \<Rightarrow> nat \<Rightarrow> image" where
  "blank h w = replicate (h * w) (0, 0, 0)"

text \<open>\<open>img.size\<close>: the number of array elements, three per pixel.\<close>

definition img_size :: "image \<Rightarrow> int" where
  "img_size img = int (length img) * 3"

subsection \<open>LSBCodec: masks, xor, conversions, capacity\<close>

definition genmask :: "nat \<Rightarrow> error + int" where
  "genmask sz = (if int sz \<le> CHAN_SIZE then Inr (push_bit sz 1) else Inl AssertionError)"

text \<open>The loop \<open>for i in range(size): mask |= genmask(i)\<close>, started from \<open>mask = 0\<close>.\<close>

primrec gen1mask :: "nat \<Rightarrow> error + int" where
  "gen1mask 0 = Inr 0"
| "gen1mask (Suc i) =
     (case gen1mask i of
        Inl e \<Rightarrow> Inl e
      | Inr m \<Rightarrow> (case genmask i of Inl e \<Rightarrow> Inl e | Inr b \<Rightarrow> Inr (m OR b)))"

definition gen0mask :: "nat \<Rightarrow> error + int" where
  "gen0mask sz =
     (case gen1mask (nat CHAN_SIZE) of
        Inl e \<Rightarrow> Inl e
      | Inr a \<Rightarrow> (case gen1mask sz of Inl e \<Rightarrow> Inl e | Inr b \<Rightarrow> Inr (a XOR b)))"

text \<open>
  \<open>xor\<close>: \<open>zip\<close> stops at the shorter argument, and \<open>itertools.cycle\<close> of an empty key
  is empty, so an empty key gives an empty result.
\<close>

definition xor_bytes :: "byte list \<Rightarrow> byte list \<Rightarrow> byte list" where
  "xor_bytes data key =
     (if key = [] then []
      else map (\<lambda>i. (data ! i) XOR (key ! (i mod length key))) [0..<length data])"

text \<open>
  \<open>available\<close>, with Python's floor division; the divisions raise on a zero divisor.
\<close>

definition available :: "image \<Rightarrow> int \<Rightarrow> error + int" where
  "available img lsb_cnt =
     (if lsb_cnt = 0 then Inl ZeroDivisionError
      else if CHAN_SIZE div lsb_cnt = 0 then Inl ZeroDivisionError
      else Inr (((img_size img - PROLOG_SIZE) div (CHAN_SIZE div lsb_cnt)) - LEN_SIZE - 1))"

text \<open>
  Hexadecimal strings are lists of digit values. \<open>hexlify\<close> gives two digits per byte;
  \<open>int(s, 16)\<close> rejects the empty string.
\<close>

definition hexlify :: "byte list \<Rightarrow> nat list" where
  "hexlify b = concat (map (\<lambda>x. [unat x div 16, unat x mod 16]) b)"

definition int16 :: "nat list \<Rightarrow> error + int" where
  "int16 s = (if s = [] then Inl ValueError else Inr (int (foldl (\<lambda>a d. 16 * a + d) 0 s)))"

definition bytes_to_int :: "byte list \<Rightarrow> error + int" where
  "bytes_to_int b = int16 (hexlify b)"

text \<open>\<open>"{:x}".format(i)\<close> for \<open>i \<ge> 0\<close>: the digits without leading zeros, \<open>"0"\<close> for 0.\<close>

fun format_x :: "nat \<Rightarrow> nat list" where
  "format_x n = (if n < 16 then [n] else format_x (n div 16) @ [n mod 16])"

declare format_x.simps [simp del]

definition zfill :: "nat list \<Rightarrow> nat \<Rightarrow> nat list" where
  "zfill s width = replicate (width - length s) 0 @ s"

fun unhex_pairs :: "nat list \<Rightarrow> byte list" where
  "unhex_pairs (a # b # s) = word_of_nat (16 * a + b) # unhex_pairs s"
| "unhex_pairs _ = []"

definition unhexlify :: "nat list \<Rightarrow> error + byte list" where
  "unhexlify s = (if odd (length s) then Inl BinasciiError else Inr (unhex_pairs s))"

text \<open>
  \<open>int_to_bytes\<close>; a negative \<open>i\<close> formats with a minus sign, which \<open>unhexlify\<close> rejects.
\<close>

definition int_to_bytes :: "int \<Rightarrow> nat \<Rightarrow> error + byte list" where
  "int_to_bytes i sz =
     (if i < 0 then Inl BinasciiError
      else unhexlify (zfill (format_x (nat i)) (sz * 2)))"

subsection \<open>lsb_check\<close>

text \<open>
  \<open>int(bits)\<close>: the identity on an integer, \<open>TypeError\<close> on \<open>None\<close>; on a bytes object
  it parses an integer literal or raises \<open>ValueError\<close>. The parser belongs to Python,
  not to this program, and is a parameter.
\<close>

definition py_int :: "(byte list \<Rightarrow> int option) \<Rightarrow> pyval \<Rightarrow> error + int" where
  "py_int parse v =
     (case v of
        PyNone \<Rightarrow> Inl TypeError
      | PyInt n \<Rightarrow> Inr n
      | PyBytes b \<Rightarrow> (case parse b of None \<Rightarrow> Inl ValueError | Some n \<Rightarrow> Inr n))"

definition lsb_check :: "(byte list \<Rightarrow> int option) \<Rightarrow> pyval \<Rightarrow> error + int" where
  "lsb_check parse bits =
     (case py_int parse bits of
        Inl e \<Rightarrow> Inl e
      | Inr bits' \<Rightarrow> (if bits' > CHAN_SIZE \<or> bits' \<le> 0 then Inl InvalidLSB else Inr bits'))"

subsection \<open>LSBEncoder\<close>

text \<open>
  One pass of the body of \<open>for c in range(CHAN_CNT)\<close> in \<open>_encode_data\<close>, on channel
  value \<open>ch\<close>; after \<open>break\<close> the remaining channels are left as they are. The new
  channel value is stored into a \<open>uint8\<close> array.
\<close>

definition encode_chan :: "int \<Rightarrow> int \<Rightarrow> nat \<Rightarrow> byte \<Rightarrow> int \<times> nat \<Rightarrow> byte \<times> int \<times> nat" where
  "encode_chan m0 m1 lsb_cnt ch vs =
     (case vs of (value, shifts) \<Rightarrow>
        if shifts = 0 then (ch, value, shifts)
        else (word_of_int ((uint ch AND m0) OR (value AND m1)),
              drop_bit lsb_cnt value, shifts - 1))"

definition encode_px :: "int \<Rightarrow> int \<Rightarrow> nat \<Rightarrow> pixel \<Rightarrow> int \<times> nat \<Rightarrow> pixel \<times> int \<times> nat" where
  "encode_px m0 m1 lsb_cnt px vs =
     (case px of (c0, c1, c2) \<Rightarrow>
        (case encode_chan m0 m1 lsb_cnt c0 vs of (c0', vs1) \<Rightarrow>
        (case encode_chan m0 m1 lsb_cnt c1 vs1 of (c1', vs2) \<Rightarrow>
        (case encode_chan m0 m1 lsb_cnt c2 vs2 of (c2', vs3) \<Rightarrow>
           ((c0', c1', c2'), vs3)))))"

text \<open>
  The loop \<open>while shifts: ... next(piter) ...\<close>. The result is the exception raised (if
  any), the pixels consumed from \<open>piter\<close> as they now stand in the image, and the pixels
  left in \<open>piter\<close>.
\<close>

fun encode_loop :: "int \<Rightarrow> int \<Rightarrow> nat \<Rightarrow> int \<Rightarrow> nat \<Rightarrow> pixel list
    \<Rightarrow> error option \<times> pixel list \<times> pixel list" where
  "encode_loop m0 m1 lsb_cnt value shifts [] =
     (if shifts = 0 then (None, [], []) else (Some StopIteration, [], []))"
| "encode_loop m0 m1 lsb_cnt value shifts (px # piter) =
     (if shifts = 0 then (None, [], px # piter)
      else (case encode_px m0 m1 lsb_cnt px (value, shifts) of (px', value', shifts') \<Rightarrow>
              (case encode_loop m0 m1 lsb_cnt value' shifts' piter of (r, done, piter') \<Rightarrow>
                 (r, px' # done, piter'))))"

definition encode_data :: "int \<Rightarrow> nat \<Rightarrow> nat \<Rightarrow> pixel list
    \<Rightarrow> error option \<times> pixel list \<times> pixel list" where
  "encode_data value shifts lsb_cnt piter =
     (case gen0mask lsb_cnt of
        Inl e \<Rightarrow> (Some e, [], piter)
      | Inr m0 \<Rightarrow>
          (case gen1mask lsb_cnt of
             Inl e \<Rightarrow> (Some e, [], piter)
           | Inr m1 \<Rightarrow> encode_loop m0 m1 lsb_cnt value shifts piter))"

text \<open>
  \<open>encode\<close>. The result is the exception raised (if any) and the image as the call
  leaves it. The two \<open>isinstance\<close> checks hold by the types of \<open>data\<close> and \<open>xor_key\<close>.
  \<open>lsb_check\<close> returns a positive number when it returns, so the \<open>assert\<close> around it
  never fails; it does not rebind \<open>lsb_cnt\<close>, so a bytes object that parses as a valid
  width goes on to \<open>available\<close>, whose \<open>CHAN_SIZE // lsb_cnt\<close> raises \<open>TypeError\<close>.
\<close>

definition encode :: "(byte list \<Rightarrow> int option) \<Rightarrow> image \<Rightarrow> byte list \<Rightarrow> pyval
    \<Rightarrow> byte list option \<Rightarrow> error option \<times> image" where
  "encode parse img data lsb_cnt xor_key =
     (case lsb_check parse lsb_cnt of
        Inl e \<Rightarrow> (Some e, img)
      | Inr _ \<Rightarrow>
     (case lsb_cnt of
        PyNone \<Rightarrow> (Some TypeError, img)
      | PyBytes _ \<Rightarrow> (Some TypeError, img)
      | PyInt lsb \<Rightarrow>
     (let sz = int (length data) in
      case available img lsb of
        Inl e \<Rightarrow> (Some e, img)
      | Inr avail \<Rightarrow>
      if sz > avail then (Some TooMuchData, img)
      else
     (let data' = (case xor_key of None \<Rightarrow> data | Some key \<Rightarrow> xor_bytes data key) in
      case bytes_to_int data' of
        Inl e \<Rightarrow> (Some e, img)
      | Inr value \<Rightarrow>
     (let prolog = (case xor_key of None \<Rightarrow> XOR_N | Some _ \<Rightarrow> XOR_Y) OR lsb in
      case encode_data prolog (nat (PROLOG_SIZE * CHAN_CNT)) 1 img of
        (Some e, done1, piter1) \<Rightarrow> (Some e, done1 @ piter1)
      | (None, done1, piter1) \<Rightarrow>
     (case encode_data sz (nat (LEN_SIZE * CHAN_SIZE div lsb)) (nat lsb) piter1 of
        (Some e, done2, piter2) \<Rightarrow> (Some e, done1 @ done2 @ piter2)
      | (None, done2, piter2) \<Rightarrow>
     (case encode_data value (nat (sz * CHAN_SIZE div lsb)) (nat lsb) piter2 of
        (r, done3, piter3) \<Rightarrow> (r, done1 @ done2 @ done3 @ piter3))))))))"

text \<open>
  \<open>encode_string\<close> and \<open>encode_file\<close> pass \<open>xor_key\<close>, whatever object it is, in the
  position of \<open>lsb_cnt\<close>; the \<open>xor_key\<close> of \<open>encode\<close> keeps its default \<open>None\<close>. The
  string is given by its encoded bytes, the file system by the contents of each readable
  file.
\<close>

definition encode_string :: "(byte list \<Rightarrow> int option) \<Rightarrow> image \<Rightarrow> byte list
    \<Rightarrow> pyval \<Rightarrow> error option \<times> image" where
  "encode_string parse img string xor_key = encode parse img string xor_key None"

definition encode_file :: "(byte list \<Rightarrow> int option) \<Rightarrow> (string \<Rightarrow> byte list option) \<Rightarrow> image
    \<Rightarrow> string \<Rightarrow> pyval \<Rightarrow> error option \<times> image" where
  "encode_file parse fs img filename xor_key =
     (case fs filename of
        None \<Rightarrow> (Some IOError, img)
      | Some data \<Rightarrow> encode parse img data xor_key None)"

subsection \<open>LSBDecoder\<close>

definition decode_chan :: "int \<Rightarrow> nat \<Rightarrow> byte \<Rightarrow> int \<times> nat \<times> nat \<Rightarrow> int \<times> nat \<times> nat" where
  "decode_chan m1 lsb_cnt ch vps =
     (case vps of (value, pos, shifts) \<Rightarrow>
        if shifts = 0 then (value, pos, shifts)
        else (value OR push_bit (pos * lsb_cnt) (uint ch AND m1), pos + 1, shifts - 1))"

definition decode_px :: "int \<Rightarrow> nat \<Rightarrow> pixel \<Rightarrow> int \<times> nat \<times> nat \<Rightarrow> int \<times> nat \<times> nat" where
  "decode_px m1 lsb_cnt px vps =
     (case px of (c0, c1, c2) \<Rightarrow>
        decode_chan m1 lsb_cnt c2 (decode_chan m1 lsb_cnt c1 (decode_chan m1 lsb_cnt c0 vps)))"

text \<open>The loop of \<open>_decode_data\<close>: the value read and the pixels left in \<open>piter\<close>.\<close>

fun decode_loop :: "int \<Rightarrow> nat \<Rightarrow> int \<Rightarrow> nat \<Rightarrow> nat \<Rightarrow> pixel list \<Rightarrow> error + int \<times> pixel list" where
  "decode_loop m1 lsb_cnt value pos shifts [] =
     (if shifts = 0 then Inr (value, []) else Inl StopIteration)"
| "decode_loop m1 lsb_cnt value pos shifts (px # piter) =
     (if shifts = 0 then Inr (value, px # piter)
      else (case decode_px m1 lsb_cnt px (value, pos, shifts) of (value', pos', shifts') \<Rightarrow>
              decode_loop m1 lsb_cnt value' pos' shifts' piter))"

definition decode_data :: "nat \<Rightarrow> nat \<Rightarrow> pixel list \<Rightarrow> error + int \<times> pixel list" where
  "decode_data shifts lsb_cnt piter =
     (case gen0mask lsb_cnt of
        Inl e \<Rightarrow> Inl e
      | Inr m0 \<Rightarrow>
          (case gen1mask lsb_cnt of
             Inl e \<Rightarrow> Inl e
           | Inr m1 \<Rightarrow> decode_loop m1 lsb_cnt 0 0 shifts piter))"

text \<open>
  \<open>decode\<close>. \<open>InvalidXOR\<close> and \<open>InvalidLSB\<close> are caught and re-raised as \<open>ValueError\<close>.
  \<open>lsb_check\<close> receives an integer here, on which \<open>int\<close> is the identity whatever the
  parser.
\<close>

definition decode :: "image \<Rightarrow> byte list option \<Rightarrow> error + byte list" where
  "decode img xor_key =
     (case gen0mask (nat CHAN_CNT) of Inl e \<Rightarrow> Inl e | Inr m0 \<Rightarrow>
     (case gen1mask (nat CHAN_CNT) of Inl e \<Rightarrow> Inl e | Inr m1 \<Rightarrow>
     (case decode_data (nat (PROLOG_SIZE * CHAN_CNT)) 1 img of
        Inl e \<Rightarrow> Inl e
      | Inr (prolog, piter1) \<Rightarrow>
     (let xor = prolog AND m0; lsb_cnt = prolog AND m1 in
      if xor \<noteq> XOR_Y \<and> xor \<noteq> XOR_N then Inl ValueError
      else
     (case lsb_check (\<lambda>_. None) (PyInt lsb_cnt) of
        Inl e \<Rightarrow> (if e = InvalidXOR \<or> e = InvalidLSB then Inl ValueError else Inl e)
      | Inr lsb \<Rightarrow>
      if xor = XOR_Y \<and> xor_key = None then Inl MissingXOR
      else
     (case decode_data (nat (LEN_SIZE * CHAN_SIZE div lsb)) (nat lsb) piter1 of
        Inl e \<Rightarrow> Inl e
      | Inr (sz, piter2) \<Rightarrow>
     (case decode_data (nat (sz * CHAN_SIZE div lsb)) (nat lsb) piter2 of
        Inl e \<Rightarrow> Inl e
      | Inr (data, piter3) \<Rightarrow>
     (case int_to_bytes data (nat sz) of
        Inl e \<Rightarrow> Inl e
      | Inr bytes \<Rightarrow>
          if xor = XOR_Y
          then (case xor_key of None \<Rightarrow> Inl MissingXOR | Some key \<Rightarrow> Inr (xor_bytes bytes key))
          else Inr bytes))))))))"

subsection \<open>Auxiliary notions for the proofs\<close>

text \<open>
  The bytes that \<open>encode\<close> converts to an integer, the prologue flag it writes, and the
  number of pixels its three calls of \<open>_encode_data\<close> consume: each call starts on a
  fresh pixel and uses three channels per pixel.
\<close>

definition payload :: "byte list \<Rightarrow> byte list option \<Rightarrow> byte list" where
  "payload data xor_key = (case xor_key of None \<Rightarrow> data | Some key \<Rightarrow> xor_bytes data key)"

definition flag :: "byte list option \<Rightarrow> int" where
  "flag xor_key = (case xor_key of None \<Rightarrow> XOR_N | Some _ \<Rightarrow> XOR_Y)"

definition pixels_needed :: "int \<Rightarrow> nat \<Rightarrow> nat" where
  "pixels_needed lsb n =
     2 + (nat (32 div lsb) + 2) div 3 + (nat (int n * 8 div lsb) + 2) div 3"

text \<open>An XOR key, \<open>None\<close> or a bytes object, as the value a caller passes.\<close>

definition key_val :: "byte list option \<Rightarrow> pyval" where
  "key_val xor_key = (case xor_key of None \<Rightarrow> PyNone | Some key \<Rightarrow> PyBytes key)"

abbreviation (input) be_val :: "nat list \<Rightarrow> nat" where
  "be_val \<equiv> foldl (\<lambda>a d. 16 * a + d) 0"

section \<open>Masks and single channels\<close>

lemma genmask_eq: "n \<le> 8 \<Longrightarrow> genmask n = Inr (2 ^ n)"
  by (simp add: genmask_def CHAN_SIZE_def)

lemma gen1mask_eq: "n \<le> 9 \<Longrightarrow> gen1mask n = Inr (mask n)"
proof (induction n)
  case 0
  then show ?case by simp
next
  case (Suc n)
  then show ?case by (simp add: genmask_eq mask_Suc_exp ac_simps)
qed

lemma gen0mask_eq: "n \<le> 9 \<Longrightarrow> gen0mask n = Inr (mask 8 XOR mask n)"
  by (simp add: gen0mask_def gen1mask_eq CHAN_SIZE_def)

lemma take_bit_split:
  fixes v :: int
  shows "take_bit a v OR push_bit a (take_bit b (drop_bit a v)) = take_bit (a + b) v"
  by (rule bit_eqI) (auto simp: bit_simps)

lemma chan_bound:
  fixes v :: int and c :: int
  assumes "n \<le> 8"
  shows "take_bit 8 ((c AND (mask 8 XOR mask n)) OR (v AND mask n)) = (c AND (mask 8 XOR mask n)) OR (v AND mask n)"
  using assms by - (rule bit_eqI, auto simp: bit_simps)

lemma chan_low:
  fixes v :: int and c :: int
  assumes "n \<le> 8"
  shows "((c AND (mask 8 XOR mask n)) OR (v AND mask n)) AND mask n = take_bit n v"
  using assms by - (rule bit_eqI, auto simp: bit_simps)

lemma chan_read:
  fixes ch :: byte and v :: int
  assumes "n \<le> 8"
  shows "uint (word_of_int ((uint ch AND (mask 8 XOR mask n)) OR (v AND mask n)) :: byte) AND mask n = take_bit n v"
  using chan_bound [OF assms, of "uint ch" v] by (simp add: uint_word_of_int_eq chan_low [OF assms])

section \<open>One pixel, and the loops over pixels\<close>

lemma join_chunks:
  fixes v :: int
  shows "(acc OR push_bit (pos * n) (take_bit (d * n) v))
           OR push_bit ((pos + d) * n) (take_bit (e * n) (drop_bit (d * n) v))
       = acc OR push_bit (pos * n) (take_bit ((d + e) * n) v)"
proof -
  have "push_bit (pos * n) (take_bit (d * n) v) OR push_bit ((pos + d) * n) (take_bit (e * n) (drop_bit (d * n) v))
      = push_bit (pos * n) (take_bit (d * n) v OR push_bit (d * n) (take_bit (e * n) (drop_bit (d * n) v)))"
    by (simp add: push_bit_add push_bit_or add.commute distrib_right)
  also have "\<dots> = push_bit (pos * n) (take_bit ((d + e) * n) v)"
    by (simp only: take_bit_split distrib_right)
  finally show ?thesis
    by (simp only: or.assoc)
qed

lemma encode_chan_eq:
  "encode_chan m0 m1 n ch (v, s)
     = (fst (encode_chan m0 m1 n ch (v, s)), drop_bit (min 1 s * n) v, s - min 1 s)"
  by (simp add: encode_chan_def)

lemma decode_encode_chan:
  assumes "n \<le> 8"
  shows "decode_chan (mask n) n (fst (encode_chan (mask 8 XOR mask n) (mask n) n ch (v, s))) (acc, pos, s)
       = (acc OR push_bit (pos * n) (take_bit (min 1 s * n) v), pos + min 1 s, s - min 1 s)"
  using assms by (simp add: encode_chan_def decode_chan_def chan_read)

lemma encode_px_snd:
  "snd (encode_px m0 m1 n px (v, s)) = (drop_bit (min 3 s * n) v, s - min 3 s)"
proof -
  obtain c0 c1 c2 where px: "px = (c0, c1, c2)" by (cases px)
  define d0 where "d0 = min 1 s"
  define d1 where "d1 = min 1 (s - d0)"
  define d2 where "d2 = min 1 (s - d0 - d1)"
  have d: "d0 + d1 + d2 = min 3 s" unfolding d0_def d1_def d2_def by linarith
  have "snd (encode_px m0 m1 n px (v, s))
      = (drop_bit (d2 * n) (drop_bit (d1 * n) (drop_bit (d0 * n) v)), s - d0 - d1 - d2)"
    unfolding px encode_px_def d0_def d1_def d2_def
    by (subst encode_chan_eq, simp only: prod.case, subst encode_chan_eq, simp only: prod.case,
        subst encode_chan_eq, simp only: prod.case snd_conv)
  also have "\<dots> = (drop_bit ((d0 + d1 + d2) * n) v, s - (d0 + d1 + d2))"
    by (simp add: drop_bit_drop_bit distrib_right add.commute add.left_commute)
  finally show ?thesis by (simp only: d)
qed

lemma decode_encode_px:
  assumes "n \<le> 8"
  shows "decode_px (mask n) n (fst (encode_px (mask 8 XOR mask n) (mask n) n px (v, s))) (acc, pos, s)
       = (acc OR push_bit (pos * n) (take_bit (min 3 s * n) v), pos + min 3 s, s - min 3 s)"
proof -
  obtain c0 c1 c2 where px: "px = (c0, c1, c2)" by (cases px)
  define d0 where "d0 = min 1 s"
  define d1 where "d1 = min 1 (s - d0)"
  define d2 where "d2 = min 1 (s - d0 - d1)"
  define M0 :: int where "M0 = mask 8 XOR mask n"
  define M1 :: int where "M1 = mask n"
  define v1 where "v1 = drop_bit (d0 * n) v"
  define v2 where "v2 = drop_bit (d1 * n) v1"
  define a1 where "a1 = acc OR push_bit (pos * n) (take_bit (d0 * n) v)"
  define a2 where "a2 = a1 OR push_bit ((pos + d0) * n) (take_bit (d1 * n) v1)"
  define a3 where "a3 = a2 OR push_bit ((pos + d0 + d1) * n) (take_bit (d2 * n) v2)"
  have d: "d0 + d1 + d2 = min 3 s" unfolding d0_def d1_def d2_def by linarith
  have fst_px: "fst (encode_px M0 M1 n px (v, s))
      = (fst (encode_chan M0 M1 n c0 (v, s)),
         fst (encode_chan M0 M1 n c1 (v1, s - d0)),
         fst (encode_chan M0 M1 n c2 (v2, s - d0 - d1)))"
    unfolding px encode_px_def d0_def d1_def v1_def v2_def
    by (subst encode_chan_eq, simp only: prod.case, subst encode_chan_eq, simp only: prod.case,
        subst (3) encode_chan_eq, simp only: prod.case fst_conv)
  have "decode_px M1 n (fst (encode_px M0 M1 n px (v, s))) (acc, pos, s)
      = decode_chan M1 n (fst (encode_chan M0 M1 n c2 (v2, s - d0 - d1)))
         (decode_chan M1 n (fst (encode_chan M0 M1 n c1 (v1, s - d0)))
           (decode_chan M1 n (fst (encode_chan M0 M1 n c0 (v, s))) (acc, pos, s)))"
    by (simp only: fst_px decode_px_def prod.case)
  also have "\<dots> = (a3, pos + d0 + d1 + d2, s - d0 - d1 - d2)"
    unfolding M0_def M1_def a1_def a2_def a3_def d0_def d1_def d2_def v1_def v2_def
    by (simp only: decode_encode_chan [OF assms])
  finally have "decode_px M1 n (fst (encode_px M0 M1 n px (v, s))) (acc, pos, s)
      = (a3, pos + d0 + d1 + d2, s - d0 - d1 - d2)" .
  moreover have "a2 = acc OR push_bit (pos * n) (take_bit ((d0 + d1) * n) v)"
    unfolding a2_def a1_def v1_def by (rule join_chunks)
  then have "a3 = acc OR push_bit (pos * n) (take_bit ((d0 + d1 + d2) * n) v)"
    unfolding a3_def v2_def v1_def
    using join_chunks [of acc pos n "d0 + d1" v d2]
    by (simp add: drop_bit_drop_bit distrib_right add_ac)
  ultimately show ?thesis
    unfolding M0_def M1_def using d by (simp add: add.assoc)
qed

lemma decode_loop_0: "decode_loop m1 n acc pos 0 ps = Inr (acc, ps)"
  by (cases ps) simp_all

lemma encode_loop_0: "encode_loop m0 m1 n v 0 ps = (None, [], ps)"
  by (cases ps) simp_all

lemma encode_px_eq:
  "encode_px m0 m1 n px (v, s)
     = (fst (encode_px m0 m1 n px (v, s)), drop_bit (min 3 s * n) v, s - min 3 s)"
  using encode_px_snd [of m0 m1 n px v s] by (metis prod.collapse)

lemma encode_loop_Cons:
  "s \<noteq> 0 \<Longrightarrow> encode_loop m0 m1 n v s (px # ps)
     = (case encode_loop m0 m1 n (drop_bit (min 3 s * n) v) (s - min 3 s) ps of
          (r, done, rest) \<Rightarrow> (r, fst (encode_px m0 m1 n px (v, s)) # done, rest))"
  by (simp, subst encode_px_eq, simp)

lemma decode_encode_loop:
  assumes "n \<le> 8"
  shows "encode_loop (mask 8 XOR mask n) (mask n) n v s ps = (None, done, rest)
     \<Longrightarrow> decode_loop (mask n) n acc pos s (done @ R)
         = Inr (acc OR push_bit (pos * n) (take_bit (s * n) v), R)"
proof (induction ps arbitrary: v s acc pos "done")
  case Nil
  then show ?case by (simp add: decode_loop_0 split: if_splits)
next
  case (Cons px ps)
  show ?case
  proof (cases "s = 0")
    case True
    with Cons.prems show ?thesis by (simp add: decode_loop_0)
  next
    case False
    define d where "d = min 3 s"
    define px' where "px' = fst (encode_px (mask 8 XOR mask n) (mask n) n px (v, s))"
    obtain r done' rest' where rec:
      "encode_loop (mask 8 XOR mask n) (mask n) n (drop_bit (d * n) v) (s - d) ps = (r, done', rest')"
      by (cases "encode_loop (mask 8 XOR mask n) (mask n) n (drop_bit (d * n) v) (s - d) ps")
    from Cons.prems False rec have r: "r = None" and dn: "done = px' # done'" and "rest' = rest"
      unfolding encode_loop_Cons [OF False] d_def px'_def by simp_all
    have IH: "decode_loop (mask n) n a p (s - d) (done' @ R)
         = Inr (a OR push_bit (p * n) (take_bit ((s - d) * n) (drop_bit (d * n) v)), R)" for a p
      using Cons.IH [of "drop_bit (d * n) v" "s - d" done' a p] rec r \<open>rest' = rest\<close> by simp
    have "decode_loop (mask n) n acc pos s (done @ R)
        = decode_loop (mask n) n (acc OR push_bit (pos * n) (take_bit (d * n) v)) (pos + d) (s - d) (done' @ R)"
      using False decode_encode_px [OF assms, of px v s acc pos]
      by (simp add: dn px'_def d_def)
    also have "\<dots> = Inr ((acc OR push_bit (pos * n) (take_bit (d * n) v))
                   OR push_bit ((pos + d) * n) (take_bit ((s - d) * n) (drop_bit (d * n) v)), R)"
      by (rule IH)
    also have "\<dots> = Inr (acc OR push_bit (pos * n) (take_bit ((d + (s - d)) * n) v), R)"
      by (simp only: join_chunks)
    also have "d + (s - d) = s" by (simp add: d_def)
    finally show ?thesis .
  qed
qed

lemma encode_data_eq:
  "n \<le> 8 \<Longrightarrow> encode_data v s n ps = encode_loop (mask 8 XOR mask n) (mask n) n v s ps"
  by (simp add: encode_data_def gen0mask_eq gen1mask_eq)

lemma decode_data_eq:
  "n \<le> 8 \<Longrightarrow> decode_data s n ps = decode_loop (mask n) n 0 0 s ps"
  by (simp add: decode_data_def gen0mask_eq gen1mask_eq)

lemma decode_encode_data:
  assumes "n \<le> 8" and "encode_data v s n ps = (None, done, rest)"
  shows "decode_data s n (done @ R) = Inr (take_bit (s * n) v, R)"
  using assms decode_encode_loop [OF assms(1), of v s ps "done" rest 0 0 R]
  by (simp add: encode_data_eq decode_data_eq)

text \<open>What the loop returns depends only on the number of pixels it is given.\<close>

lemma encode_loop_shape:
  "encode_loop m0 m1 n v s ps = (r, done, rest) \<Longrightarrow>
     (if (s + 2) div 3 \<le> length ps
      then r = None \<and> length done = (s + 2) div 3 \<and> rest = drop ((s + 2) div 3) ps
      else r = Some StopIteration \<and> length done = length ps \<and> rest = [])"
proof (induction ps arbitrary: v s "done")
  case Nil
  then show ?case by (auto split: if_splits)
next
  case (Cons px ps)
  show ?case
  proof (cases "s = 0")
    case True
    with Cons.prems show ?thesis by simp
  next
    case False
    define d where "d = min 3 s"
    obtain r' done' rest' where rec:
      "encode_loop m0 m1 n (drop_bit (d * n) v) (s - d) ps = (r', done', rest')"
      by (cases "encode_loop m0 m1 n (drop_bit (d * n) v) (s - d) ps")
    from Cons.prems False rec have eqs: "r' = r" "done = fst (encode_px m0 m1 n px (v, s)) # done'" "rest' = rest"
      unfolding encode_loop_Cons [OF False] d_def by simp_all
    have k: "(s + 2) div 3 = Suc ((s - d + 2) div 3)"
    proof (cases "s \<ge> 3")
      case True
      then have "d = 3" by (simp add: d_def)
      with True show ?thesis by simp
    next
      case False
      with \<open>s \<noteq> 0\<close> have "d = s" "s = 1 \<or> s = 2" by (auto simp: d_def)
      then show ?thesis by auto
    qed
    from rec have "encode_loop m0 m1 n (drop_bit (d * n) v) (s - d) ps = (r, done', rest)"
      by (simp add: eqs)
    from Cons.IH [OF this] show ?thesis
      unfolding eqs k by (simp split: if_splits)
  qed
qed

section \<open>Bytes and integers\<close>

lemma be_val_snoc: "be_val (xs @ [d]) = 16 * be_val xs + d"
  by simp

lemma be_val_zero: "be_val xs = 0 \<Longrightarrow> xs = replicate (length xs) 0"
proof (induction xs rule: rev_induct)
  case Nil
  then show ?case by simp
next
  case (snoc d xs)
  then have "be_val xs = 0" "d = 0" by simp_all
  with snoc.IH have "xs = replicate (length xs) 0" by simp
  then have "xs @ [d] = replicate (length xs) 0 @ [0]" using \<open>d = 0\<close> by simp
  then show ?case by (simp add: replicate_append_same)
qed

lemma zfill_format_x:
  assumes "\<forall>d \<in> set ds. d < 16" and "ds \<noteq> []"
  shows "zfill (format_x (be_val ds)) (length ds) = ds"
  using assms
proof (induction ds rule: rev_induct)
  case Nil
  then show ?case by simp
next
  case (snoc d xs)
  let ?v = "16 * be_val xs + d"
  from snoc.prems have d: "d < 16" and xs: "\<forall>d \<in> set xs. d < 16" by simp_all
  show ?case
  proof (cases "be_val xs = 0")
    case True
    then have "format_x ?v = [d]" using d by (simp add: format_x.simps)
    moreover have "xs = replicate (length xs) 0" using True by (rule be_val_zero)
    ultimately show ?thesis by (simp add: zfill_def)
  next
    case False
    then have "xs \<noteq> []" by auto
    from False have "\<not> ?v < 16" by simp
    then have "format_x ?v = format_x (?v div 16) @ [?v mod 16]"
      by (subst format_x.simps) simp
    also have "?v div 16 = be_val xs" using d by simp
    also have "?v mod 16 = d" using d by simp
    finally have "format_x ?v = format_x (be_val xs) @ [d]" .
    moreover have "zfill (format_x (be_val xs)) (length xs) = xs"
      using snoc.IH xs \<open>xs \<noteq> []\<close> by simp
    ultimately show ?thesis by (simp add: zfill_def)
  qed
qed

lemma hexlify_digits: "\<forall>d \<in> set (hexlify b). d < 16"
proof -
  have "unat x div 16 < 16" for x :: byte
    using unsigned_less [of x, where 'a = nat] by simp
  then show ?thesis by (auto simp: hexlify_def)
qed

lemma length_hexlify: "length (hexlify b) = 2 * length b"
  by (induction b) (simp_all add: hexlify_def)

lemma unhex_pairs_hexlify: "unhex_pairs (hexlify b) = b"
  by (induction b) (simp_all add: hexlify_def)

lemma bytes_to_int_eq: "b \<noteq> [] \<Longrightarrow> bytes_to_int b = Inr (int (be_val (hexlify b)))"
  by (cases b) (simp_all add: bytes_to_int_def int16_def hexlify_def)

lemma bytes_to_int_Nil: "bytes_to_int [] = Inl ValueError"
  by (simp add: bytes_to_int_def int16_def hexlify_def)

lemma int_to_bytes_bytes_to_int:
  assumes "b \<noteq> []"
  shows "int_to_bytes (int (be_val (hexlify b))) (length b) = Inr b"
proof -
  have "hexlify b \<noteq> []" using assms by (cases b) (simp_all add: hexlify_def)
  then have "zfill (format_x (be_val (hexlify b))) (length (hexlify b)) = hexlify b"
    using hexlify_digits by (rule zfill_format_x [rotated])
  then show ?thesis
    by (simp add: int_to_bytes_def unhexlify_def length_hexlify unhex_pairs_hexlify mult.commute)
qed

lemma be_val_bound: "\<forall>d \<in> set ds. d < 16 \<Longrightarrow> be_val ds < 16 ^ length ds"
proof (induction ds rule: rev_induct)
  case Nil
  then show ?case by simp
next
  case (snoc d xs)
  then have "be_val xs < 16 ^ length xs" "d < 16" by simp_all
  then have "16 * be_val xs + d < 16 * 16 ^ length xs" by linarith
  then show ?case by simp
qed

lemma bytes_val_bound: "int (be_val (hexlify b)) < 2 ^ (8 * length b)"
proof -
  have "be_val (hexlify b) < 16 ^ (2 * length b)"
    using be_val_bound [OF hexlify_digits, of b] by (simp add: length_hexlify)
  also have "(16::nat) ^ (2 * length b) = 2 ^ (8 * length b)"
    by (induction b) (simp_all add: power_add)
  finally show ?thesis
    by (metis of_nat_less_iff of_nat_numeral of_nat_power)
qed

section \<open>The outcome of encode, and decode after encode\<close>

lemma encode_data_shape:
  assumes "n \<le> 8" and "encode_data v s n ps = (r, done, rest)"
  shows "if (s + 2) div 3 \<le> length ps
      then r = None \<and> length done = (s + 2) div 3 \<and> rest = drop ((s + 2) div 3) ps
      else r = Some StopIteration \<and> length done = length ps \<and> rest = []"
  using assms encode_loop_shape [of "mask 8 XOR mask n" "mask n" n v s ps r "done" rest]
  by (simp add: encode_data_eq)

lemma encode_unfold:
  assumes "1 \<le> bw" and "bw \<le> 8"
  shows "encode p img D (PyInt bw) K =
     (if int (length D) > (img_size img - 2) div (8 div bw) - 5 then (Some TooMuchData, img)
      else case bytes_to_int (payload D K) of
        Inl e \<Rightarrow> (Some e, img)
      | Inr V \<Rightarrow>
     (case encode_data (flag K OR bw) 6 1 img of
        (Some e, done1, piter1) \<Rightarrow> (Some e, done1 @ piter1)
      | (None, done1, piter1) \<Rightarrow>
     (case encode_data (int (length D)) (nat (32 div bw)) (nat bw) piter1 of
        (Some e, done2, piter2) \<Rightarrow> (Some e, done1 @ done2 @ piter2)
      | (None, done2, piter2) \<Rightarrow>
     (case encode_data V (nat (int (length D) * 8 div bw)) (nat bw) piter2 of
        (r, done3, piter3) \<Rightarrow> (r, done1 @ done2 @ done3 @ piter3)))))"
proof -
  have "8 div bw \<noteq> 0" using assms
    by (simp add: pos_imp_zdiv_pos_iff [of bw 8, THEN iffD2, THEN less_imp_neq, THEN not_sym])
  then show ?thesis
    using assms
    by (simp add: encode_def lsb_check_def py_int_def available_def CHAN_SIZE_def PROLOG_SIZE_def
        LEN_SIZE_def CHAN_CNT_def payload_def flag_def Let_def
        cong: sum.case_cong prod.case_cong option.case_cong)
qed

lemma encode_status:
  assumes "1 \<le> bw" and "bw \<le> 8"
  shows "fst (encode p img D (PyInt bw) K) =
     (if int (length D) > (img_size img - 2) div (8 div bw) - 5 then Some TooMuchData
      else if payload D K = [] then Some ValueError
      else if length img < pixels_needed bw (length D) then Some StopIteration
      else None)"
proof -
  let ?L = "int (length D)"
  define k2 where "k2 = (nat (32 div bw) + 2) div 3"
  define k3 where "k3 = (nat (?L * 8 div bw) + 2) div 3"
  have n8: "nat bw \<le> 8" using assms by simp
  show ?thesis
  proof (cases "?L > (img_size img - 2) div (8 div bw) - 5")
    case True
    then show ?thesis by (simp add: encode_unfold [OF assms])
  next
    case cap: False
    show ?thesis
    proof (cases "payload D K = []")
      case True
      with cap show ?thesis by (simp add: encode_unfold [OF assms] bytes_to_int_Nil)
    next
      case ne: False
      obtain V where V: "bytes_to_int (payload D K) = Inr V"
        using bytes_to_int_eq [OF ne] by blast
      obtain r1 d1 p1 where e1: "encode_data (flag K OR bw) 6 1 img = (r1, d1, p1)"
        by (cases "encode_data (flag K OR bw) 6 1 img")
      obtain r2 d2 p2 where e2: "encode_data ?L (nat (32 div bw)) (nat bw) p1 = (r2, d2, p2)"
        by (cases "encode_data ?L (nat (32 div bw)) (nat bw) p1")
      obtain r3 d3 p3 where e3: "encode_data V (nat (?L * 8 div bw)) (nat bw) p2 = (r3, d3, p3)"
        by (cases "encode_data V (nat (?L * 8 div bw)) (nat bw) p2")
      have s1: "if 2 \<le> length img then r1 = None \<and> p1 = drop 2 img else r1 = Some StopIteration"
        using encode_data_shape [OF _ e1] by (simp split: if_splits)
      have s2: "if k2 \<le> length p1 then r2 = None \<and> p2 = drop k2 p1 else r2 = Some StopIteration"
        using encode_data_shape [OF n8 e2] unfolding k2_def by (simp split: if_splits)
      have s3: "if k3 \<le> length p2 then r3 = None else r3 = Some StopIteration"
        using encode_data_shape [OF n8 e3] unfolding k3_def by (simp split: if_splits)
      have need: "pixels_needed bw (length D) = 2 + k2 + k3"
        by (simp add: pixels_needed_def k2_def k3_def)
      have "fst (encode p img D (PyInt bw) K) =
          (if r1 \<noteq> None then r1 else if r2 \<noteq> None then r2 else r3)"
        using cap by (auto simp: encode_unfold [OF assms] V e1 [unfolded One_nat_def] e2 e3 split: option.splits)
      also have "\<dots> = (if length img < pixels_needed bw (length D) then Some StopIteration else None)"
      proof (cases "2 \<le> length img")
        case False
        with s1 show ?thesis by (simp add: need)
      next
        case a: True
        with s1 have p1: "r1 = None" "length p1 = length img - 2" by simp_all
        show ?thesis
        proof (cases "k2 \<le> length p1")
          case False
          with s2 p1 a show ?thesis by (simp add: need)
        next
          case b: True
          with s2 have p2: "r2 = None" "length p2 = length p1 - k2" by simp_all
          show ?thesis
          proof (cases "k3 \<le> length p2")
            case False
            with s3 p1 p2 a b show ?thesis by (simp add: need)
          next
            case True
            with s3 have "r3 = None" by simp
            moreover have "\<not> length img < 2 + k2 + k3" using True a b p1 p2 by linarith
            ultimately show ?thesis using p1 p2 by (simp add: need)
          qed
        qed
      qed
      finally show ?thesis using cap ne by simp
    qed
  qed
qed

lemma encode_empty:
  assumes "1 \<le> bw" and "bw \<le> 8" and "0 \<le> (img_size img - 2) div (8 div bw) - 5"
  shows "encode p img [] (PyInt bw) K = (Some ValueError, img)"
proof -
  have "payload [] K = []"
    by (cases K) (simp_all add: payload_def xor_bytes_def)
  with assms(3) show ?thesis
    by (simp add: encode_unfold [OF assms(1,2)] bytes_to_int_Nil)
qed

lemma encode_success:
  assumes "encode p img D lsb_cnt K = (None, img')"
  obtains bw V d1 d2 d3 r1 r2 r3 where
    "lsb_cnt = PyInt bw" "1 \<le> bw" "bw \<le> 8"
    "bytes_to_int (payload D K) = Inr V"
    "encode_data (flag K OR bw) 6 1 img = (None, d1, r1)"
    "encode_data (int (length D)) (nat (32 div bw)) (nat bw) r1 = (None, d2, r2)"
    "encode_data V (nat (int (length D) * 8 div bw)) (nat bw) r2 = (None, d3, r3)"
    "img' = d1 @ d2 @ d3 @ r3"
proof -
  from assms obtain bw where bw: "lsb_cnt = PyInt bw" "1 \<le> bw" "bw \<le> 8"
    by (cases lsb_cnt)
       (auto simp: encode_def lsb_check_def py_int_def CHAN_SIZE_def split: sum.splits if_splits option.splits)
  note u = encode_unfold [OF bw(2,3), of p img D K]
  from assms bw(1) u obtain V where V: "bytes_to_int (payload D K) = Inr V"
    by (cases "bytes_to_int (payload D K)") (auto split: if_splits)
  obtain x1 d1 r1 where e1: "encode_data (flag K OR bw) 6 1 img = (x1, d1, r1)"
    by (cases "encode_data (flag K OR bw) 6 1 img")
  obtain x2 d2 r2 where e2: "encode_data (int (length D)) (nat (32 div bw)) (nat bw) r1 = (x2, d2, r2)"
    by (cases "encode_data (int (length D)) (nat (32 div bw)) (nat bw) r1")
  obtain x3 d3 r3 where e3: "encode_data V (nat (int (length D) * 8 div bw)) (nat bw) r2 = (x3, d3, r3)"
    by (cases "encode_data V (nat (int (length D) * 8 div bw)) (nat bw) r2")
  from assms bw(1) u V e1 e2 e3 have "x1 = None \<and> x2 = None \<and> x3 = None \<and> img' = d1 @ d2 @ d3 @ r3"
    by (auto split: if_splits option.splits)
  with that [OF bw V] e1 e2 e3 show thesis by blast
qed

lemma decode_unfold:
  "decode img K' =
     (case decode_data 6 1 img of
        Inl e \<Rightarrow> Inl e
      | Inr (prolog, piter1) \<Rightarrow>
          if prolog AND 248 \<noteq> 56 \<and> prolog AND 248 \<noteq> 0 then Inl ValueError
          else if prolog AND 7 > 8 \<or> prolog AND 7 \<le> 0 then Inl ValueError
          else if prolog AND 248 = 56 \<and> K' = None then Inl MissingXOR
          else
         (case decode_data (nat (32 div (prolog AND 7))) (nat (prolog AND 7)) piter1 of
            Inl e \<Rightarrow> Inl e
          | Inr (sz, piter2) \<Rightarrow>
         (case decode_data (nat (sz * 8 div (prolog AND 7))) (nat (prolog AND 7)) piter2 of
            Inl e \<Rightarrow> Inl e
          | Inr (data, piter3) \<Rightarrow>
         (case int_to_bytes data (nat sz) of
            Inl e \<Rightarrow> Inl e
          | Inr bytes \<Rightarrow>
              if prolog AND 248 = 56
              then (case K' of None \<Rightarrow> Inl MissingXOR | Some key \<Rightarrow> Inr (xor_bytes bytes key))
              else Inr bytes))))"
proof -
  have m: "gen0mask 3 = Inr 248" "gen1mask 3 = Inr 7"
    by (simp_all add: gen0mask_eq gen1mask_eq mask_eq_exp_minus_1)
  show ?thesis
  proof (cases "decode_data 6 1 img")
    case (Inl e)
    then show ?thesis
      by (simp add: decode_def m CHAN_CNT_def PROLOG_SIZE_def)
  next
    case (Inr a)
    obtain prolog piter1 where a: "a = (prolog, piter1)" by (cases a)
    show ?thesis
      using Inr unfolding a
      by (simp add: decode_def m CHAN_CNT_def PROLOG_SIZE_def LEN_SIZE_def CHAN_SIZE_def
          XOR_Y_def XOR_N_def lsb_check_def py_int_def Let_def
          cong: sum.case_cong prod.case_cong option.case_cong)
  qed
qed

lemma prolog_fields:
  fixes bw f :: int
  assumes "1 \<le> bw" and "bw \<le> 7" and "f = 0 \<or> f = 56"
  shows "take_bit 6 (f OR bw) AND 248 = f" and "take_bit 6 (f OR bw) AND 7 = bw"
proof -
  from assms(1,2) have "bw = 1 \<or> bw = 2 \<or> bw = 3 \<or> bw = 4 \<or> bw = 5 \<or> bw = 6 \<or> bw = 7"
    by presburger
  with assms(3) show "take_bit 6 (f OR bw) AND 248 = f" and "take_bit 6 (f OR bw) AND 7 = bw"
    by auto
qed

lemma flag_cases: "flag K = 0 \<or> flag K = 56"
  by (cases K) (simp_all add: flag_def XOR_N_def XOR_Y_def)

lemma decode_after_encode:
  assumes enc: "encode p img D (PyInt bw) K = (None, img')"
    and bw7: "bw \<le> 7"
    and len: "int (length D) < 2 ^ (nat (32 div bw) * nat bw)"
  obtains V where "bytes_to_int (payload D K) = Inr V"
    and "decode img' K' =
       (if K \<noteq> None \<and> K' = None then Inl MissingXOR
        else case int_to_bytes (take_bit (nat (int (length D) * 8 div bw) * nat bw) V) (length D) of
               Inl e \<Rightarrow> Inl e
             | Inr bytes \<Rightarrow>
                 if K \<noteq> None
                 then (case K' of None \<Rightarrow> Inl MissingXOR | Some key \<Rightarrow> Inr (xor_bytes bytes key))
                 else Inr bytes)"
proof -
  from enc obtain V d1 d2 d3 r1 r2 r3 where
    bw1: "1 \<le> bw" and
    V: "bytes_to_int (payload D K) = Inr V" and
    e1: "encode_data (flag K OR bw) 6 1 img = (None, d1, r1)" and
    e2: "encode_data (int (length D)) (nat (32 div bw)) (nat bw) r1 = (None, d2, r2)" and
    e3: "encode_data V (nat (int (length D) * 8 div bw)) (nat bw) r2 = (None, d3, r3)" and
    img': "img' = d1 @ d2 @ d3 @ r3"
    by (rule encode_success) auto
  have n8: "nat bw \<le> 8" using bw7 by simp
  define P where "P = take_bit 6 (flag K OR bw)"
  have pf: "P AND 248 = flag K" "P AND 7 = bw"
    unfolding P_def using prolog_fields [OF bw1 bw7 flag_cases] by simp_all
  have dd1: "decode_data 6 1 img' = Inr (P, d2 @ d3 @ r3)"
    unfolding img' P_def using decode_encode_data [OF _ e1, of "d2 @ d3 @ r3"] by simp
  have "take_bit (nat (32 div bw) * nat bw) (int (length D)) = int (length D)"
    using len by (simp add: take_bit_int_eq_self)
  then have dd2: "decode_data (nat (32 div bw)) (nat bw) (d2 @ d3 @ r3) = Inr (int (length D), d3 @ r3)"
    using decode_encode_data [OF n8 e2, of "d3 @ r3"] by simp
  have dd3: "decode_data (nat (int (length D) * 8 div bw)) (nat bw) (d3 @ r3)
      = Inr (take_bit (nat (int (length D) * 8 div bw) * nat bw) V, r3)"
    using decode_encode_data [OF n8 e3, of r3] by simp
  have "decode img' K' =
       (if K \<noteq> None \<and> K' = None then Inl MissingXOR
        else case int_to_bytes (take_bit (nat (int (length D) * 8 div bw) * nat bw) V) (length D) of
               Inl e \<Rightarrow> Inl e
             | Inr bytes \<Rightarrow>
                 if K \<noteq> None
                 then (case K' of None \<Rightarrow> Inl MissingXOR | Some key \<Rightarrow> Inr (xor_bytes bytes key))
                 else Inr bytes)"
  proof (cases K)
    case None
    then have "flag K = 0" by (simp add: flag_def XOR_N_def)
    with None bw1 bw7 show ?thesis
      by (simp add: decode_unfold dd1 [unfolded One_nat_def] pf dd2 dd3 cong: sum.case_cong)
  next
    case (Some k)
    then have "flag K = 56" by (simp add: flag_def XOR_Y_def)
    with Some bw1 bw7 show ?thesis
      by (simp add: decode_unfold dd1 [unfolded One_nat_def] pf dd2 dd3 cong: sum.case_cong)
  qed
  with V show thesis by (rule that)
qed

section \<open>Keys\<close>

lemma length_xor_bytes: "key \<noteq> [] \<Longrightarrow> length (xor_bytes data key) = length data"
  by (simp add: xor_bytes_def)

lemma xor_cancel_iff:
  fixes d a b :: byte
  shows "(d XOR a) XOR b = d \<longleftrightarrow> a = b"
proof
  assume "(d XOR a) XOR b = d"
  then have "(d XOR a) XOR ((d XOR a) XOR b) = (d XOR a) XOR d" by simp
  then have "b = (d XOR a) XOR d" by (simp add: xor.assoc [symmetric])
  also have "\<dots> = a" by (simp add: xor.commute [of d a] xor.assoc)
  finally show "a = b" by simp
next
  assume "a = b"
  then show "(d XOR a) XOR b = d" by (simp add: xor.assoc)
qed

lemma xor_bytes_nth:
  "key \<noteq> [] \<Longrightarrow> i < length data \<Longrightarrow> xor_bytes data key ! i = (data ! i) XOR (key ! (i mod length key))"
  by (simp add: xor_bytes_def)

lemma xor_bytes_twice:
  assumes "k \<noteq> []" and "k' \<noteq> []"
  shows "xor_bytes (xor_bytes D k) k' = D
     \<longleftrightarrow> (\<forall>i < length D. k ! (i mod length k) = k' ! (i mod length k'))"
proof -
  have len: "length (xor_bytes (xor_bytes D k) k') = length D"
    using assms by (simp add: length_xor_bytes)
  have nth: "xor_bytes (xor_bytes D k) k' ! i = ((D ! i) XOR (k ! (i mod length k))) XOR (k' ! (i mod length k'))"
    if "i < length D" for i
    using assms that by (simp add: xor_bytes_nth length_xor_bytes)
  show ?thesis
  proof
    assume eq: "xor_bytes (xor_bytes D k) k' = D"
    show "\<forall>i < length D. k ! (i mod length k) = k' ! (i mod length k')"
    proof (intro allI impI)
      fix i assume i: "i < length D"
      from eq have "xor_bytes (xor_bytes D k) k' ! i = D ! i" by simp
      then have "((D ! i) XOR (k ! (i mod length k))) XOR (k' ! (i mod length k')) = D ! i"
        by (simp only: nth [OF i])
      then show "k ! (i mod length k) = k' ! (i mod length k')"
        by (simp only: xor_cancel_iff)
    qed
  next
    assume h: "\<forall>i < length D. k ! (i mod length k) = k' ! (i mod length k')"
    show "xor_bytes (xor_bytes D k) k' = D"
    proof (rule nth_equalityI)
      show "length (xor_bytes (xor_bytes D k) k') = length D" by (rule len)
    next
      fix i assume "i < length (xor_bytes (xor_bytes D k) k')"
      then have i: "i < length D" by (simp only: len)
      with h have "k ! (i mod length k) = k' ! (i mod length k')" by blast
      then show "xor_bytes (xor_bytes D k) k' ! i = D ! i"
        by (simp only: nth [OF i] xor_cancel_iff)
    qed
  qed
qed

lemma length_blank: "length (blank h w) = h * w"
  by (simp add: blank_def)

lemma payload_length:
  assumes "payload D K \<noteq> []"
  shows "length (payload D K) = length D"
proof (cases K)
  case None
  then show ?thesis by (simp add: payload_def)
next
  case (Some k)
  with assms have "k \<noteq> []" by (auto simp: payload_def xor_bytes_def)
  with Some show ?thesis by (simp add: payload_def length_xor_bytes)
qed

lemma decode_encode_divisible:
  assumes enc: "encode p img D (PyInt bw) K = (None, img')"
    and bw7: "bw \<le> 7"
    and len: "int (length D) < 2 ^ (nat (32 div bw) * nat bw)"
    and dvd: "bw dvd int (length D) * 8"
  shows "decode img' K' =
     (case K of
        None \<Rightarrow> Inr D
      | Some k \<Rightarrow> (case K' of None \<Rightarrow> Inl MissingXOR
                            | Some k' \<Rightarrow> Inr (xor_bytes (xor_bytes D k) k')))"
proof -
  from enc have bw1: "1 \<le> bw" by (rule encode_success) auto
  from decode_after_encode [OF enc bw7 len, of K'] obtain V where
    V: "bytes_to_int (payload D K) = Inr V" and
    dec: "decode img' K' =
       (if K \<noteq> None \<and> K' = None then Inl MissingXOR
        else case int_to_bytes (take_bit (nat (int (length D) * 8 div bw) * nat bw) V) (length D) of
               Inl e \<Rightarrow> Inl e
             | Inr bytes \<Rightarrow>
                 if K \<noteq> None
                 then (case K' of None \<Rightarrow> Inl MissingXOR | Some key \<Rightarrow> Inr (xor_bytes bytes key))
                 else Inr bytes)"
    by blast
  from V have ne: "payload D K \<noteq> []" by (auto simp: bytes_to_int_Nil)
  then have L: "length (payload D K) = length D" by (rule payload_length)
  from V ne have Veq: "V = int (be_val (hexlify (payload D K)))"
    by (simp add: bytes_to_int_eq)
  have "int (length D) * 8 div bw * bw = int (length D) * 8"
    using dvd by simp
  moreover have "0 \<le> int (length D) * 8 div bw"
    using bw1 by (simp add: pos_imp_zdiv_nonneg_iff)
  ultimately have "int (nat (int (length D) * 8 div bw) * nat bw) = int (8 * length D)"
    using bw1 by simp
  then have bits: "nat (int (length D) * 8 div bw) * nat bw = 8 * length D"
    by (simp only: of_nat_eq_iff)
  have "take_bit (8 * length D) V = V"
    using bytes_val_bound [of "payload D K"] by (simp add: Veq L take_bit_int_eq_self)
  moreover have "int_to_bytes V (length D) = Inr (payload D K)"
    using int_to_bytes_bytes_to_int [OF ne] by (simp add: Veq L)
  ultimately have "int_to_bytes (take_bit (nat (int (length D) * 8 div bw) * nat bw) V) (length D)
      = Inr (payload D K)"
    by (simp add: bits)
  with dec show ?thesis
    by (cases K; cases K') (simp_all add: payload_def)
qed

lemma prolog_after_encode:
  assumes "encode p img D (PyInt bw) K = (None, img')"
  obtains rest where "decode_data 6 1 img' = Inr (take_bit 6 (flag K OR bw), rest)"
proof -
  from assms obtain V d1 d2 d3 r1 r2 r3 where
    e1: "encode_data (flag K OR bw) 6 1 img = (None, d1, r1)" and
    img': "img' = d1 @ d2 @ d3 @ r3"
    by (rule encode_success) auto
  have "decode_data 6 1 img' = Inr (take_bit 6 (flag K OR bw), d2 @ d3 @ r3)"
    unfolding img' using decode_encode_data [OF _ e1, of "d2 @ d3 @ r3"] by simp
  then show thesis by (rule that)
qed

lemma decode_without_key:
  assumes enc: "encode p img D (PyInt bw) (Some K) = (None, img')" and bw7: "bw \<le> 7"
  shows "decode img' None = Inl MissingXOR"
proof -
  from enc have bw1: "1 \<le> bw" by (rule encode_success) auto
  define P where "P = take_bit 6 (flag (Some K) OR bw)"
  from prolog_after_encode [OF enc] obtain rest where
    dd: "decode_data 6 1 img' = Inr (P, rest)" unfolding P_def by blast
  have "flag (Some K) = 56" by (simp add: flag_def XOR_Y_def)
  then have pf: "P AND 248 = 56" "P AND 7 = bw"
    unfolding P_def using prolog_fields [OF bw1 bw7, of "flag (Some K)"] by simp_all
  show ?thesis
    using bw1 bw7 by (simp add: decode_unfold dd [unfolded One_nat_def] pf)
qed

lemma lsb_check_PyInt:
  "lsb_check p (PyInt n) = (if n > 8 \<or> n \<le> 0 then Inl InvalidLSB else Inr n)"
  by (simp add: lsb_check_def py_int_def CHAN_SIZE_def)

section \<open>Non-integer widths, and worked inputs\<close>

lemma encode_non_int:
  assumes "\<And>n. lsb_cnt \<noteq> PyInt n"
  shows "(fst (encode p img D lsb_cnt K) = Some TypeError
          \<or> fst (encode p img D lsb_cnt K) = Some ValueError
          \<or> fst (encode p img D lsb_cnt K) = Some InvalidLSB)
       \<and> snd (encode p img D lsb_cnt K) = img"
  using assms
  by (cases lsb_cnt) (auto simp: encode_def lsb_check_def py_int_def split: option.splits sum.splits)

lemma replicate_num: "replicate (numeral k) x = x # replicate (pred_numeral k) x"
  by (simp add: numeral_eq_Suc)

lemma encode_data_num:
  "encode_data v s (Suc 0) ps = encode_loop 254 1 (Suc 0) v s ps"
  "encode_data v s 2 ps = encode_loop 252 3 2 v s ps"
  "encode_data v s 3 ps = encode_loop 248 7 3 v s ps"
  using encode_data_eq [of 1 v s ps] encode_data_eq [of 2 v s ps] encode_data_eq [of 3 v s ps]
  by (simp_all add: mask_eq_exp_minus_1)

lemma decode_data_num:
  "decode_data s (Suc 0) ps = decode_loop 1 (Suc 0) 0 0 s ps"
  "decode_data s 2 ps = decode_loop 3 2 0 0 s ps"
  "decode_data s 3 ps = decode_loop 7 3 0 0 s ps"
  using decode_data_eq [of 1 s ps] decode_data_eq [of 2 s ps] decode_data_eq [of 3 s ps]
  by (simp_all add: mask_eq_exp_minus_1)

lemmas run_codec = encode_px_def encode_chan_def decode_px_def decode_chan_def drop_bit_eq_div replicate_num

lemma decode_data_0: "n \<le> 8 \<Longrightarrow> decode_data 0 n ps = Inr (0, ps)"
  by (simp add: decode_data_eq decode_loop_0)

lemma format_x_digit: "n < 16 \<Longrightarrow> format_x n = [n]"
  by (subst format_x.simps) simp

lemma format_x_63: "format_x 63 = [3, 15]"
  by (subst format_x.simps) (simp add: format_x_digit)

lemma bytes_to_int_FF: "bytes_to_int [0xFF] = Inr 255"
  by (simp add: bytes_to_int_def int16_def hexlify_def)

lemma int_to_bytes_63: "int_to_bytes 63 (Suc 0) = Inr [0x3F]"
  by (simp add: int_to_bytes_def format_x_63 zfill_def unhexlify_def)

lemma enc_2x5_prolog: "encode_data 2 6 (Suc 0) (blank 2 5) = (None, [(0, 1, 0), (0, 0, 0)], replicate 8 (0, 0, 0))"
  by (simp add: blank_def encode_data_num run_codec)

lemma enc_2x5_length: "encode_data 2 16 2 (replicate 8 (0, 0, 0))
    = (None, [(2, 0, 0), (0, 0, 0), (0, 0, 0), (0, 0, 0), (0, 0, 0), (0, 0, 0)], replicate 2 (0, 0, 0))"
  by (simp add: encode_data_num run_codec)

lemma enc_2x5_payload: "encode_data 16706 8 2 (replicate 2 (0, 0, 0)) = (Some StopIteration, [(2, 0, 0), (1, 1, 0)], [])"
  by (simp add: encode_data_num run_codec)

lemma dec_empty_prolog: "decode_data 6 (Suc 0) ((1, 0, 0) # replicate 15 (0, 0, 0)) = Inr (1, replicate 14 (0, 0, 0))"
  by (simp add: decode_data_num run_codec)

lemma dec_empty_length: "decode_data 32 (Suc 0) (replicate 14 (0, 0, 0)) = Inr (0, replicate 3 (0, 0, 0))"
  by (simp add: decode_data_num run_codec)

lemma encode_fst_None:
  "fst (encode p img D lsb_cnt K) = None \<Longrightarrow>
     encode p img D lsb_cnt K = (None, snd (encode p img D lsb_cnt K))"
  by (metis prod.collapse)

lemma header_after_encode:
  assumes enc: "encode p img D (PyInt bw) K = (None, img')"
    and len: "int (length D) < 2 ^ (nat (32 div bw) * nat bw)"
  shows "decode_data 6 1 img' = Inr (take_bit 6 (flag K OR bw), drop 2 img')"
    and "decode_data (nat (32 div bw)) (nat bw) (drop 2 img')
           = Inr (int (length D), drop (2 + (nat (32 div bw) + 2) div 3) img')"
proof -
  from enc obtain V d1 d2 d3 r1 r2 r3 where
    bw: "1 \<le> bw" "bw \<le> 8" and
    e1: "encode_data (flag K OR bw) 6 1 img = (None, d1, r1)" and
    e2: "encode_data (int (length D)) (nat (32 div bw)) (nat bw) r1 = (None, d2, r2)" and
    img': "img' = d1 @ d2 @ d3 @ r3"
    by (rule encode_success) auto
  have n8: "nat bw \<le> 8" using bw by simp
  have l1: "length d1 = 2"
    using encode_data_shape [OF _ e1] by (simp split: if_splits)
  have l2: "length d2 = (nat (32 div bw) + 2) div 3"
    using encode_data_shape [OF n8 e2] by (simp split: if_splits)
  have d2: "drop 2 img' = d2 @ d3 @ r3" by (simp add: img' l1)
  have d3: "drop (2 + (nat (32 div bw) + 2) div 3) img' = d3 @ r3" by (simp add: img' l1 l2)
  show "decode_data 6 1 img' = Inr (take_bit 6 (flag K OR bw), drop 2 img')"
    unfolding d2 unfolding img' using decode_encode_data [OF _ e1, of "d2 @ d3 @ r3"] by simp
  have "take_bit (nat (32 div bw) * nat bw) (int (length D)) = int (length D)"
    using len by (simp add: take_bit_int_eq_self)
  then show "decode_data (nat (32 div bw)) (nat bw) (drop 2 img')
           = Inr (int (length D), drop (2 + (nat (32 div bw) + 2) div 3) img')"
    unfolding d2 d3 using decode_encode_data [OF n8 e2, of "d3 @ r3"] by simp
qed

section \<open>What decode returns after a successful encoding\<close>

lemma length_format_x: "n < 16 ^ k \<Longrightarrow> 0 < k \<Longrightarrow> length (format_x n) \<le> k"
proof (induction k arbitrary: n)
  case 0
  then show ?case by simp
next
  case (Suc j)
  show ?case
  proof (cases "n < 16")
    case True
    then show ?thesis by (simp add: format_x_digit)
  next
    case False
    then have fx: "format_x n = format_x (n div 16) @ [n mod 16]"
      by (subst format_x.simps) simp
    from Suc.prems have lt: "n div 16 < 16 ^ j"
      by (simp add: less_mult_imp_div_less mult.commute)
    from False Suc.prems have "0 < j" by (cases j) simp_all
    with Suc.IH [OF lt] show ?thesis by (simp add: fx)
  qed
qed

lemma length_unhex_pairs: "length (unhex_pairs s) = length s div 2"
  by (induction s rule: unhex_pairs.induct) simp_all

lemma int_to_bytes_total:
  assumes "0 \<le> v" and "v < 2 ^ (8 * L)" and "0 < L"
  obtains bs where "int_to_bytes v L = Inr bs" and "length bs = L"
proof -
  have "(16::nat) ^ (2 * L) = 2 ^ (8 * L)"
    by (induction L) (simp_all add: power_add)
  moreover have "nat v < 2 ^ (8 * L)"
    using assms(1,2) by (simp add: nat_less_iff)
  ultimately have "nat v < 16 ^ (2 * L)" by simp
  then have "length (format_x (nat v)) \<le> 2 * L"
    using assms(3) by (intro length_format_x) simp_all
  then have len: "length (zfill (format_x (nat v)) (L * 2)) = 2 * L"
    by (simp add: zfill_def)
  then have "int_to_bytes v L = Inr (unhex_pairs (zfill (format_x (nat v)) (L * 2)))"
    using assms(1) by (simp add: int_to_bytes_def unhexlify_def)
  moreover have "length (unhex_pairs (zfill (format_x (nat v)) (L * 2))) = L"
    by (simp add: length_unhex_pairs len)
  ultimately show thesis by (rule that)
qed

lemma decode_returns:
  assumes enc: "encode p img D (PyInt bw) K = (None, img')"
    and bw7: "bw \<le> 7"
    and len: "int (length D) < 2 ^ (nat (32 div bw) * nat bw)"
    and key: "K = None \<or> K' \<noteq> None"
  obtains bs where "decode img' K' = Inr bs"
proof -
  from enc have bw1: "1 \<le> bw" by (rule encode_success) auto
  from decode_after_encode [OF enc bw7 len, of K'] obtain V where
    V: "bytes_to_int (payload D K) = Inr V" and
    dec: "decode img' K' =
       (if K \<noteq> None \<and> K' = None then Inl MissingXOR
        else case int_to_bytes (take_bit (nat (int (length D) * 8 div bw) * nat bw) V) (length D) of
               Inl e \<Rightarrow> Inl e
             | Inr bytes \<Rightarrow>
                 if K \<noteq> None
                 then (case K' of None \<Rightarrow> Inl MissingXOR | Some key \<Rightarrow> Inr (xor_bytes bytes key))
                 else Inr bytes)"
    by blast
  define m where "m = nat (int (length D) * 8 div bw) * nat bw"
  from V have ne: "payload D K \<noteq> []" by (auto simp: bytes_to_int_Nil)
  then have "length (payload D K) = length D" by (rule payload_length)
  with ne have L: "0 < length D" by auto
  have "int (length D) * 8 div bw * bw + int (length D) * 8 mod bw = int (length D) * 8"
    by simp
  moreover have "0 \<le> int (length D) * 8 mod bw"
    using bw1 by simp
  ultimately have "int (length D) * 8 div bw * bw \<le> int (length D) * 8"
    by linarith
  moreover have "0 \<le> int (length D) * 8 div bw"
    using bw1 by (simp add: pos_imp_zdiv_nonneg_iff)
  ultimately have "int m \<le> int (8 * length D)"
    using bw1 by (simp add: m_def)
  then have m: "m \<le> 8 * length D" by (simp only: of_nat_le_iff)
  have "take_bit m V < 2 ^ m" by simp
  also have "(2::int) ^ m \<le> 2 ^ (8 * length D)"
    using m by (simp add: power_increasing)
  finally have lt: "take_bit m V < 2 ^ (8 * length D)" .
  have ge: "0 \<le> take_bit m V" by simp
  obtain bs where "int_to_bytes (take_bit m V) (length D) = Inr bs"
    using int_to_bytes_total [OF ge lt L] by blast
  with dec key show thesis
    unfolding m_def [symmetric] by (cases K; cases K') (auto intro: that)
qed

lemma blank_5x5_prolog: "decode_data 6 (Suc 0) (blank 5 5) = Inr (0, replicate 23 (0, 0, 0))"
  by (simp add: blank_def decode_data_num run_codec)

lemma encode_abc_changes_image:
  "fst (encode (\<lambda>_. None) (blank 5 5) [0x61, 0x62, 0x63] (PyInt 1) None) = None"
  "snd (encode (\<lambda>_. None) (blank 5 5) [0x61, 0x62, 0x63] (PyInt 1) None) \<noteq> blank 5 5"
proof -
  let ?D = "[0x61, 0x62, 0x63] :: byte list"
  let ?img' = "snd (encode (\<lambda>_. None) (blank 5 5) ?D (PyInt 1) None)"
  show ok: "fst (encode (\<lambda>_. None) (blank 5 5) ?D (PyInt 1) None) = None"
    by (simp add: encode_status img_size_def length_blank payload_def pixels_needed_def)
  then have e: "encode (\<lambda>_. None) (blank 5 5) ?D (PyInt 1) None = (None, ?img')"
    by (rule encode_fst_None)
  have len: "int (length ?D) < 2 ^ (nat (32 div 1) * nat 1)" by simp
  have "decode_data 6 (Suc 0) ?img' = Inr (1, drop 2 ?img')"
    using header_after_encode(1) [OF e len] by (simp add: flag_def XOR_N_def)
  then show "?img' \<noteq> blank 5 5"
    using blank_5x5_prolog by auto
qed

section \<open>Claims\<close>

text \<open>
  Claim C1 (round trip), at a width that does not divide the payload's bits. On a 4 by 4
  blank image \<open>available\<close> is 18 at bit-width 3, so the one-byte buffer \<open>0xFF\<close> is
  within capacity and \<open>encode\<close> completes; \<open>decode\<close> of the result, with no key on
  either side, returns \<open>0x3F\<close> and not \<open>0xFF\<close>: the two highest bits were never written.
\<close>

theorem roundtrip_loses_bits_at_width_3:
  "fst (encode (\<lambda>_. None) (blank 4 4) [0xFF] (PyInt 3) None) = None
   \<and> decode (snd (encode (\<lambda>_. None) (blank 4 4) [0xFF] (PyInt 3) None)) None = Inr [0x3F]"
proof -
  let ?img' = "snd (encode (\<lambda>_. None) (blank 4 4) [0xFF] (PyInt 3) None)"
  have ok: "fst (encode (\<lambda>_. None) (blank 4 4) [0xFF] (PyInt 3) None) = None"
    by (simp add: encode_status img_size_def length_blank payload_def pixels_needed_def)
  then have e: "encode (\<lambda>_. None) (blank 4 4) [0xFF] (PyInt 3) None = (None, ?img')"
    by (metis prod.collapse)
  from decode_after_encode [OF e, of None] obtain V where
    "bytes_to_int (payload [0xFF] None) = Inr V" and
    "decode ?img' None =
       (if (None :: byte list option) \<noteq> None \<and> (None :: byte list option) = None then Inl MissingXOR
        else case int_to_bytes (take_bit (nat (int (length [0xFF :: byte]) * 8 div 3) * nat 3) V) (length [0xFF :: byte]) of
               Inl e \<Rightarrow> Inl e
             | Inr bytes \<Rightarrow>
                 if (None :: byte list option) \<noteq> None
                 then (case (None :: byte list option) of None \<Rightarrow> Inl MissingXOR | Some key \<Rightarrow> Inr (xor_bytes bytes key))
                 else Inr bytes)"
    by auto
  then have "decode ?img' None = Inr [0x3F]"
    by (simp add: payload_def bytes_to_int_FF int_to_bytes_63)
  with ok show ?thesis by simp
qed


text \<open>
  Claim C3 (capacity formula). On a 2 by 5 image (30 channels) at bit-width 2 the code's
  \<open>available\<close> is 2, where the claimed formula, which subtracts the six prologue
  channels, gives 1: the code subtracts \<open>PROLOG_SIZE\<close>, a number of pixels, from a number
  of channels.
\<close>

theorem available_subtracts_prolog_pixels:
  "available (blank 2 5) 2 = Inr 2
   \<and> (img_size (blank 2 5) - PROLOG_SIZE * CHAN_CNT) div (CHAN_SIZE div 2) - LEN_SIZE - 1 = 1"
  by (simp add: available_def img_size_def length_blank CHAN_SIZE_def PROLOG_SIZE_def LEN_SIZE_def CHAN_CNT_def)

text \<open>
  Claim C4 (capacity boundary). On a 2 by 5 blank image at bit-width 2, \<open>available\<close> is 2,
  yet encoding a buffer of exactly 2 bytes does not succeed: the prologue takes 2 pixels,
  the length field 6 and the payload needs 3, one more than the image has, so \<open>encode\<close>
  raises \<open>StopIteration\<close> after it has already overwritten the image.
\<close>

theorem encode_at_capacity_runs_out_of_pixels:
  "available (blank 2 5) 2 = Inr 2
   \<and> encode (\<lambda>_. None) (blank 2 5) [0x41, 0x42] (PyInt 2) None
     = (Some StopIteration,
        [(0, 1, 0), (0, 0, 0), (2, 0, 0), (0, 0, 0), (0, 0, 0), (0, 0, 0), (0, 0, 0), (0, 0, 0),
         (2, 0, 0), (1, 1, 0)])"
  by (simp add: available_def CHAN_SIZE_def PROLOG_SIZE_def LEN_SIZE_def
      encode_unfold enc_2x5_prolog enc_2x5_length enc_2x5_payload flag_def XOR_N_def payload_def
      bytes_to_int_def int16_def hexlify_def img_size_def length_blank)

text \<open>
  Claim C5. Whenever \<open>encode\<close> raises \<open>TooMuchData\<close>, whatever the arguments, the image
  after the call is the image before it: the capacity check comes before any channel is
  written.
\<close>

theorem capacity_failure_leaves_grid:
  assumes "fst (encode p img D lsb_cnt K) = Some TooMuchData"
  shows "snd (encode p img D lsb_cnt K) = img"
proof (cases "lsb_check p lsb_cnt")
  case (Inl e)
  then show ?thesis by (simp add: encode_def)
next
  case (Inr n)
  show ?thesis
  proof (cases lsb_cnt)
    case PyNone
    with Inr show ?thesis by (simp add: encode_def)
  next
    case (PyBytes b)
    with Inr show ?thesis by (simp add: encode_def)
  next
    case (PyInt bw)
    with Inr have bw: "1 \<le> bw" "bw \<le> 8"
      by (simp_all add: lsb_check_PyInt split: if_splits)
    from assms have "int (length D) > (img_size img - 2) div (8 div bw) - 5"
      unfolding PyInt encode_status [OF bw] by (simp split: if_splits)
    then show ?thesis
      unfolding PyInt by (simp add: encode_unfold [OF bw])
  qed
qed

theorem capacity_failure_leaves_grid_witness:
  "fst (encode (\<lambda>_. None) (blank 4 4) [0x41, 0x42, 0x43] (PyInt 1) None) = Some TooMuchData
   \<and> snd (encode (\<lambda>_. None) (blank 4 4) [0x41, 0x42, 0x43] (PyInt 1) None) = blank 4 4"
proof -
  have h: "fst (encode (\<lambda>_. None) (blank 4 4) [0x41, 0x42, 0x43] (PyInt 1) None) = Some TooMuchData"
    by (simp add: encode_status img_size_def length_blank)
  from capacity_failure_leaves_grid [OF h] h show ?thesis by simp
qed

text \<open>
  Claim C6 (zero-length payload). On a 4 by 4 blank image at bit-width 1, \<open>available\<close> is
  0, which admits the empty buffer, but \<open>encode\<close> raises \<open>ValueError\<close>: \<open>bytes_to_int\<close>
  parses the empty hexadecimal string. On the decoding side, an image whose prologue says
  bit-width 1 and no key and whose length field is 0 makes \<open>decode\<close> raise
  \<open>binascii.Error\<close>: \<open>int_to_bytes(0, 0)\<close> unhexlifies the one-digit string \<open>"0"\<close>.
\<close>

theorem empty_payload_raises:
  "available (blank 4 4) 1 = Inr 0
   \<and> encode (\<lambda>_. None) (blank 4 4) [] (PyInt 1) None = (Some ValueError, blank 4 4)
   \<and> decode ((1, 0, 0) # replicate 15 (0, 0, 0)) None = Inl BinasciiError"
  by (simp add: available_def CHAN_SIZE_def PROLOG_SIZE_def LEN_SIZE_def img_size_def length_blank
      encode_unfold payload_def bytes_to_int_Nil
      decode_unfold dec_empty_prolog dec_empty_length decode_data_0
      int_to_bytes_def format_x_digit zfill_def unhexlify_def)

text \<open>
  Claim C7 (concrete scenario), as stated: on the 4 by 4 blank image the encoding of
  \<open>0x41 0x42 0x43\<close> at bit-width 1 with no key does not both succeed and decode to the
  payload.
\<close>

theorem scenario_4x4_counterexample:
  "\<not> (fst (encode (\<lambda>_. None) (blank 4 4) [0x41, 0x42, 0x43] (PyInt 1) None) = None
      \<and> decode (snd (encode (\<lambda>_. None) (blank 4 4) [0x41, 0x42, 0x43] (PyInt 1) None)) None
          = Inr [0x41, 0x42, 0x43])"
  by (simp add: encode_status img_size_def length_blank)

text \<open>
  Claim C7, amended. On the 4 by 4 blank image \<open>available\<close> is 0 at bit-width 1, so the
  encoding of the three bytes raises \<open>TooMuchData\<close> and leaves the image as it was. On a
  5 by 5 blank image (75 channels) the same call succeeds; the six
  prologue channels read back as 1 (flag \<open>0b000\<close>, bit-width 1), the length field, read
  from the third pixel on, as 3, and \<open>decode\<close> returns \<open>0x41 0x42 0x43\<close>.
\<close>

theorem scenario_abc:
  "available (blank 4 4) 1 = Inr 0
   \<and> encode (\<lambda>_. None) (blank 4 4) [0x41, 0x42, 0x43] (PyInt 1) None = (Some TooMuchData, blank 4 4)
   \<and> available (blank 5 5) 1 = Inr 4
   \<and> fst (encode (\<lambda>_. None) (blank 5 5) [0x41, 0x42, 0x43] (PyInt 1) None) = None
   \<and> decode_data 6 1 (snd (encode (\<lambda>_. None) (blank 5 5) [0x41, 0x42, 0x43] (PyInt 1) None))
       = Inr (1, drop 2 (snd (encode (\<lambda>_. None) (blank 5 5) [0x41, 0x42, 0x43] (PyInt 1) None)))
   \<and> decode_data 32 1 (drop 2 (snd (encode (\<lambda>_. None) (blank 5 5) [0x41, 0x42, 0x43] (PyInt 1) None)))
       = Inr (3, drop 13 (snd (encode (\<lambda>_. None) (blank 5 5) [0x41, 0x42, 0x43] (PyInt 1) None)))
   \<and> decode (snd (encode (\<lambda>_. None) (blank 5 5) [0x41, 0x42, 0x43] (PyInt 1) None)) None
       = Inr [0x41, 0x42, 0x43]"
proof -
  let ?D = "[0x41, 0x42, 0x43] :: byte list"
  let ?img' = "snd (encode (\<lambda>_. None) (blank 5 5) ?D (PyInt 1) None)"
  have a4: "available (blank 4 4) 1 = Inr 0" and a5: "available (blank 5 5) 1 = Inr 4"
    by (simp_all add: available_def CHAN_SIZE_def PROLOG_SIZE_def LEN_SIZE_def img_size_def length_blank)
  have f4: "encode (\<lambda>_. None) (blank 4 4) ?D (PyInt 1) None = (Some TooMuchData, blank 4 4)"
    by (simp add: encode_unfold img_size_def length_blank)
  have ok: "fst (encode (\<lambda>_. None) (blank 5 5) ?D (PyInt 1) None) = None"
    by (simp add: encode_status img_size_def length_blank payload_def pixels_needed_def)
  then have e: "encode (\<lambda>_. None) (blank 5 5) ?D (PyInt 1) None = (None, ?img')"
    by (rule encode_fst_None)
  have len: "int (length ?D) < 2 ^ (nat (32 div 1) * nat 1)" by simp
  have h1: "decode_data 6 1 ?img' = Inr (1, drop 2 ?img')"
    using header_after_encode(1) [OF e len] by (simp add: flag_def XOR_N_def)
  have h2: "decode_data 32 1 (drop 2 ?img') = Inr (3, drop 13 ?img')"
    using header_after_encode(2) [OF e len] by simp
  have "decode ?img' None = Inr ?D"
    using decode_encode_divisible [OF e _ len, of None] by simp
  with a4 a5 f4 ok h1 h2 show ?thesis by simp
qed

text \<open>
  Claim C8 (wrong key), as stated: the one-byte payload \<open>0x41\<close> encoded with the key
  \<open>0x01\<close> is returned unchanged by \<open>decode\<close> with the different key \<open>0x01 0x02\<close>,
  since only the first byte of either key meets the payload.
\<close>

theorem equivalent_key_decodes_payload:
  "fst (encode (\<lambda>_. None) (blank 5 5) [0x41] (PyInt 1) (Some [1])) = None
   \<and> [1, 2] \<noteq> [1 :: byte]
   \<and> decode (snd (encode (\<lambda>_. None) (blank 5 5) [0x41] (PyInt 1) (Some [1]))) (Some [1, 2])
       = Inr [0x41]"
proof -
  let ?img' = "snd (encode (\<lambda>_. None) (blank 5 5) [0x41] (PyInt 1) (Some [1]))"
  have ok: "fst (encode (\<lambda>_. None) (blank 5 5) [0x41] (PyInt 1) (Some [1])) = None"
    by (simp add: encode_status img_size_def length_blank payload_def pixels_needed_def xor_bytes_def)
  then have e: "encode (\<lambda>_. None) (blank 5 5) [0x41] (PyInt 1) (Some [1]) = (None, ?img')"
    by (rule encode_fst_None)
  have "decode ?img' (Some [1, 2]) = Inr (xor_bytes (xor_bytes [0x41] [1]) [1, 2])"
    using decode_encode_divisible [OF e, of "Some [1, 2]"] by simp
  also have "xor_bytes (xor_bytes [0x41] [1]) [1, 2] = [0x41 :: byte]"
    by (simp add: xor_bytes_twice)
  finally show ?thesis using ok by simp
qed

text \<open>
  Claim C8, amended. For every image on which \<open>encode\<close> has succeeded with a key \<open>K\<close> at a
  bit-width from 1 to 7, \<open>decode\<close> with no key raises \<open>MissingXOR\<close>. If the payload's
  length fits the length field, \<open>decode\<close> with any key \<open>K'\<close> raises nothing and returns
  bytes, at every such width. If moreover the bit-width divides the payload's number of
  bits and \<open>K'\<close> is not empty, the bytes returned are the payload xored with \<open>K\<close> and with
  \<open>K'\<close>, both cycled; that is the original payload exactly when the two cycled keys agree
  at every position of the payload.
\<close>

theorem keyed_image_decoding:
  assumes enc: "encode p img D (PyInt bw) (Some K) = (None, img')" and bw7: "bw \<le> 7"
  shows "decode img' None = Inl MissingXOR
     \<and> (int (length D) < 2 ^ (nat (32 div bw) * nat bw)
        \<longrightarrow> (\<exists>bs. decode img' (Some K') = Inr bs))
     \<and> (bw dvd int (length D) * 8 \<and> int (length D) < 2 ^ (nat (32 div bw) * nat bw) \<and> K' \<noteq> []
        \<longrightarrow> decode img' (Some K') = Inr (xor_bytes (xor_bytes D K) K')
          \<and> (decode img' (Some K') = Inr D
               \<longleftrightarrow> (\<forall>i < length D. K ! (i mod length K) = K' ! (i mod length K'))))"
proof (intro conjI impI)
  show "decode img' None = Inl MissingXOR"
    using enc bw7 by (rule decode_without_key)
next
  assume "int (length D) < 2 ^ (nat (32 div bw) * nat bw)"
  with enc bw7 obtain bs where "decode img' (Some K') = Inr bs"
    by (rule decode_returns [where K' = "Some K'"]) simp_all
  then show "\<exists>bs. decode img' (Some K') = Inr bs" ..
next
  assume h: "bw dvd int (length D) * 8 \<and> int (length D) < 2 ^ (nat (32 div bw) * nat bw) \<and> K' \<noteq> []"
  from enc have "bytes_to_int (payload D (Some K)) \<noteq> Inl ValueError"
    by (rule encode_success) auto
  then have K: "K \<noteq> []"
    by (auto simp: payload_def xor_bytes_def bytes_to_int_Nil)
  have dec: "decode img' (Some K') = Inr (xor_bytes (xor_bytes D K) K')"
    using decode_encode_divisible [OF enc bw7, of "Some K'"] h by simp
  then show "decode img' (Some K') = Inr (xor_bytes (xor_bytes D K) K')" .
  show "decode img' (Some K') = Inr D
      \<longleftrightarrow> (\<forall>i < length D. K ! (i mod length K) = K' ! (i mod length K'))"
    using xor_bytes_twice [OF K, of K' D] h by (simp add: dec)
qed

theorem keyed_image_decoding_witness:
  "fst (encode (\<lambda>_. None) (blank 5 5) [0x41] (PyInt 1) (Some [1])) = None
   \<and> decode (snd (encode (\<lambda>_. None) (blank 5 5) [0x41] (PyInt 1) (Some [1]))) None = Inl MissingXOR
   \<and> (\<exists>bs. decode (snd (encode (\<lambda>_. None) (blank 5 5) [0x41] (PyInt 1) (Some [1]))) (Some [3]) = Inr bs)
   \<and> decode (snd (encode (\<lambda>_. None) (blank 5 5) [0x41] (PyInt 1) (Some [1]))) (Some [3]) = Inr [0x43]"
proof -
  let ?img' = "snd (encode (\<lambda>_. None) (blank 5 5) [0x41] (PyInt 1) (Some [1]))"
  have ok: "fst (encode (\<lambda>_. None) (blank 5 5) [0x41] (PyInt 1) (Some [1])) = None"
    by (simp add: encode_status img_size_def length_blank payload_def pixels_needed_def xor_bytes_def)
  then have e: "encode (\<lambda>_. None) (blank 5 5) [0x41] (PyInt 1) (Some [1]) = (None, ?img')"
    by (rule encode_fst_None)
  have x: "xor_bytes (xor_bytes [0x41] [1]) [3] = [0x43 :: byte]"
    by (simp add: xor_bytes_def)
  from keyed_image_decoding [OF e, of "[3]"] ok show ?thesis
    by (simp add: x)
qed

text \<open>
  Claim C9. The encoder's check accepts bit-width 8, but no image that \<open>encode\<close> has
  completed at bit-width 8 can be decoded, with or without a key and whatever key is
  given to \<open>decode\<close>: the fourth bit of the width lands in the obfuscation sub-field, so
  \<open>decode\<close> rejects either that sub-field or the width 0 it extracts, and raises
  \<open>ValueError\<close> in both cases.
\<close>

theorem width8_never_decodes:
  assumes "encode p img D (PyInt 8) K = (None, img')"
  shows "lsb_check p (PyInt 8) = Inr 8 \<and> decode img' K' = Inl ValueError"
proof -
  define P where "P = take_bit 6 (flag K OR 8)"
  from prolog_after_encode [OF assms] obtain rest where
    dd: "decode_data 6 1 img' = Inr (P, rest)" unfolding P_def by blast
  have "P = 8 \<or> P = 56"
    unfolding P_def using flag_cases [of K] by auto
  then have "decode img' K' = Inl ValueError"
    by (auto simp: decode_unfold dd [unfolded One_nat_def])
  then show ?thesis by (simp add: lsb_check_PyInt)
qed

theorem width8_never_decodes_witness:
  "encode (\<lambda>_. None) (blank 3 3) [0x41] (PyInt 8) None
     = (None, snd (encode (\<lambda>_. None) (blank 3 3) [0x41] (PyInt 8) None))
   \<and> lsb_check (\<lambda>_. None) (PyInt 8) = Inr 8
   \<and> decode (snd (encode (\<lambda>_. None) (blank 3 3) [0x41] (PyInt 8) None)) None = Inl ValueError"
proof -
  have "fst (encode (\<lambda>_. None) (blank 3 3) [0x41] (PyInt 8) None) = None"
    by (simp add: encode_status img_size_def length_blank payload_def pixels_needed_def)
  then have e: "encode (\<lambda>_. None) (blank 3 3) [0x41] (PyInt 8) None
     = (None, snd (encode (\<lambda>_. None) (blank 3 3) [0x41] (PyInt 8) None))"
    by (metis prod.collapse)
  from width8_never_decodes [OF e, of None] e show ?thesis by simp
qed

text \<open>
  Claim C10, as stated: with the integer 1 as \<open>xor_key\<close>, \<open>encode_string\<close> and
  \<open>encode_file\<close> do not raise: the integer is taken as the bit-width, the three bytes are
  encoded into a 5 by 5 blank image at one bit per channel, and the image is changed.
\<close>

theorem integer_key_is_taken_as_width:
  "fst (encode_string (\<lambda>_. None) (blank 5 5) [0x61, 0x62, 0x63] (PyInt 1)) = None
   \<and> snd (encode_string (\<lambda>_. None) (blank 5 5) [0x61, 0x62, 0x63] (PyInt 1)) \<noteq> blank 5 5
   \<and> fst (encode_file (\<lambda>_. None) (\<lambda>_. Some [0x61, 0x62, 0x63]) (blank 5 5) ''f'' (PyInt 1)) = None
   \<and> snd (encode_file (\<lambda>_. None) (\<lambda>_. Some [0x61, 0x62, 0x63]) (blank 5 5) ''f'' (PyInt 1)) \<noteq> blank 5 5"
  using encode_abc_changes_image by (simp add: encode_string_def encode_file_def)

text \<open>
  Claim C10, amended. When \<open>xor_key\<close> is \<open>None\<close> or a bytes object, \<open>encode_string\<close> and
  \<open>encode_file\<close> hand it to \<open>encode\<close> as \<open>lsb_cnt\<close>, and whatever the string, the file,
  the key and the way Python parses a bytes object as an integer, the call raises an
  exception and leaves the image as it was; the key is never applied as an XOR key.
\<close>

theorem convenience_entry_points_raise_on_keys:
  "(fst (encode_string p img string (key_val xor_key)) = Some TypeError
      \<or> fst (encode_string p img string (key_val xor_key)) = Some ValueError
      \<or> fst (encode_string p img string (key_val xor_key)) = Some InvalidLSB)
   \<and> snd (encode_string p img string (key_val xor_key)) = img
   \<and> (fst (encode_file p fs img filename (key_val xor_key)) = Some IOError
      \<or> fst (encode_file p fs img filename (key_val xor_key)) = Some TypeError
      \<or> fst (encode_file p fs img filename (key_val xor_key)) = Some ValueError
      \<or> fst (encode_file p fs img filename (key_val xor_key)) = Some InvalidLSB)
   \<and> snd (encode_file p fs img filename (key_val xor_key)) = img"
proof -
  have k: "key_val xor_key \<noteq> PyInt n" for n
    by (cases xor_key) (simp_all add: key_val_def)
  note a = encode_non_int [of "key_val xor_key" p img _ None, OF k]
  show ?thesis
  proof (cases "fs filename")
    case None
    with a [of string] show ?thesis by (simp add: encode_string_def encode_file_def)
  next
    case (Some data)
    with a [of string] a [of data] show ?thesis
      by (simp add: encode_string_def encode_file_def)
  qed
qed

end
